theory Spec2Isabelle
  imports Main "HOL-Library.Word" "HOL-Library.Multiset"
begin

section \<open>Values of the host interface\<close>

text \<open>
  The three evaluators of \<^verbatim>\<open>mask_extension.cpp\<close> work on byte strings
  (\<^verbatim>\<open>std::string\<close>, here \<open>string\<close>, a list of bytes), on 64-bit signed integers
  (\<^verbatim>\<open>int64_t\<close>, here \<open>64 word\<close>, which \<open>sint\<close> reads in two's complement) and on
  sizes (\<^verbatim>\<open>size_t\<close>, here \<open>nat\<close> where no subtraction can pass below zero).  What
  throws in the C++ is a value of type \<open>error\<close>; the accesses that the C++ does not
  check are described where they occur.

  The source adds and subtracts \<^verbatim>\<open>int64_t\<close> values without a check.  C++ leaves a
  signed overflow undefined; the model takes what the compiled code does on a two's
  complement machine, the wrap-around of \<open>+\<close> and \<open>-\<close> on \<open>64 word\<close>.
\<close>

type_synonym int64 = "64 word"

datatype error = OutOfRange | LengthError | OutOfBounds

text \<open>Sequencing of computations that may throw: the first error ends the evaluation.\<close>

definition bind_result :: "error + 'a \<Rightarrow> ('a \<Rightarrow> error + 'b) \<Rightarrow> error + 'b" where
  "bind_result r f = (case r of Inl e \<Rightarrow> Inl e | Inr v \<Rightarrow> f v)"

text \<open>
  \<^verbatim>\<open>std::min\<close> and \<^verbatim>\<open>std::max\<close> at \<^verbatim>\<open>int64_t\<close>: the comparison is the signed one,
  and the first argument is returned when both are equal.
\<close>

definition min_i64 :: "int64 \<Rightarrow> int64 \<Rightarrow> int64" where
  "min_i64 a b = (if sint b < sint a then b else a)"

definition max_i64 :: "int64 \<Rightarrow> int64 \<Rightarrow> int64" where
  "max_i64 a b = (if sint a < sint b then b else a)"

text \<open>
  The largest length of a \<^verbatim>\<open>std::string\<close> (\<^verbatim>\<open>max_size()\<close>); the value is the one
  of the GNU library on a 64-bit target.  The proofs use only that it is below
  \<open>2 ^ 63\<close>, so that the size of a string fits an \<^verbatim>\<open>int64_t\<close>.
\<close>

definition string_max_size :: nat where
  "string_max_size = 2 ^ 62 - 1"

text \<open>
  \<^verbatim>\<open>s.substr(pos, count)\<close> throws \<^verbatim>\<open>std::out_of_range\<close> when \<open>pos\<close> is beyond the
  size and otherwise returns at most \<open>count\<close> bytes from \<open>pos\<close>; \<^verbatim>\<open>s.substr(pos)\<close>
  returns everything from \<open>pos\<close>.
\<close>

definition substr :: "string \<Rightarrow> nat \<Rightarrow> nat \<Rightarrow> error + string" where
  "substr s pos cnt =
     (if length s < pos then Inl OutOfRange else Inr (take cnt (drop pos s)))"

definition substr_from :: "string \<Rightarrow> nat \<Rightarrow> error + string" where
  "substr_from s pos =
     (if length s < pos then Inl OutOfRange else Inr (drop pos s))"

text \<open>The constructor \<^verbatim>\<open>string(count, ch)\<close>; it throws \<^verbatim>\<open>std::length_error\<close> beyond \<^verbatim>\<open>max_size()\<close>.\<close>

definition string_fill :: "nat \<Rightarrow> char \<Rightarrow> error + string" where
  "string_fill cnt ch =
     (if string_max_size < cnt then Inl LengthError else Inr (replicate cnt ch))"

text \<open>
  \<^verbatim>\<open>v.GetData()[i]\<close> on a string value: the byte at index \<open>i\<close> of the value.  The
  C++ does not check the index and goes on with the byte it finds.  Within the value
  that is the byte of the value; at or beyond its length it is whatever the memory
  holds there, which the value does not determine: the parameter \<open>beyond\<close>.  Each
  read is recorded with the length of the value and the index, so that a read out of
  bounds shows in what the model returns.
\<close>

datatype data_read = DataRead (value_size: nat) (read_index: nat)

definition out_of_bounds :: "data_read \<Rightarrow> bool" where
  "out_of_bounds r = (value_size r \<le> read_index r)"

definition GetData_at :: "char \<Rightarrow> string \<Rightarrow> nat \<Rightarrow> char \<times> data_read" where
  "GetData_at beyond v i =
     (if i < length v then v ! i else beyond, DataRead (length v) i)"

section \<open>\<^verbatim>\<open>mask_string\<close>\<close>

text \<open>
  The lambda of \<^verbatim>\<open>MaskStringScalarFun\<close>, for one row.  The argument \<open>mask0\<close> is what
  \<^verbatim>\<open>mask_vector.GetValue(0)\<close> returns: the value of the fourth column at row 0 of the
  batch, whichever row is being computed.  The lambda returns the string (or the
  exception of \<^verbatim>\<open>substr\<close> or of the constructor) and the reads it has made of the data
  of \<open>mask0\<close>.
\<close>

definition MaskStringLambda ::
  "char \<Rightarrow> string \<Rightarrow> string \<Rightarrow> int64 \<Rightarrow> int64 \<Rightarrow> (error + string) \<times> data_read list" where
  "MaskStringLambda beyond mask0 name start len =
     (let input = name;
          input_size = (of_nat (length input) :: int64);
          start = max_i64 0 (min_i64 (start - 1) input_size);
          end' = max_i64 start (min_i64 (start + len) input_size);
          (mask_char, rd) = GetData_at beyond mask0 0
      in (bind_result (substr input 0 (unat start)) (\<lambda>head.
          bind_result (string_fill (unat (end' - start)) mask_char) (\<lambda>fill.
          bind_result (substr_from input (unat end')) (\<lambda>rest.
          Inr (head @ fill @ rest)))),
          [rd]))"

text \<open>
  The values of \<^verbatim>\<open>start\<close> and \<^verbatim>\<open>end\<close> after lines 75 and 76 of the source, named
  for the proofs.
\<close>

definition mask_start :: "string \<Rightarrow> int64 \<Rightarrow> int64" where
  "mask_start input start = max_i64 0 (min_i64 (start - 1) (of_nat (length input)))"

definition mask_end :: "string \<Rightarrow> int64 \<Rightarrow> int64 \<Rightarrow> int64" where
  "mask_end input start len =
     max_i64 (mask_start input start)
       (min_i64 (mask_start input start + len) (of_nat (length input)))"

text \<open>
  The string built at lines 82 to 84 from \<^verbatim>\<open>start\<close>, \<^verbatim>\<open>end\<close> and the fill byte, when
  nothing throws; \<open>unat\<close> is the conversion from \<^verbatim>\<open>int64_t\<close> to \<^verbatim>\<open>size_t\<close>.
\<close>

definition masked_string :: "string \<Rightarrow> int64 \<Rightarrow> int64 \<Rightarrow> char \<Rightarrow> string" where
  "masked_string input start len mask_char =
     take (unat (mask_start input start)) input
     @ replicate (unat (mask_end input start len - mask_start input start)) mask_char
     @ drop (unat (mask_end input start len)) input"

text \<open>
  The reference definition of the specification, on unbounded integers:
  \<open>s0 = clamp (s - 1) 0 L\<close>, \<open>e = clamp (s0 + n) s0 L\<close>, and the output is
  \<open>S[0 : s0]\<close>, then \<open>e - s0\<close> copies of \<open>c\<close>, then \<open>S[e : L]\<close>.
\<close>

definition clamp :: "int \<Rightarrow> int \<Rightarrow> int \<Rightarrow> int" where
  "clamp x lo hi = max lo (min x hi)"

definition mask_string_ref :: "string \<Rightarrow> int \<Rightarrow> int \<Rightarrow> char \<Rightarrow> string" where
  "mask_string_ref S s n c =
     (let L = int (length S);
          s0 = clamp (s - 1) 0 L;
          e = clamp (s0 + n) s0 L
      in take (nat s0) S @ replicate (nat (e - s0)) c @ drop (nat e) S)"

text \<open>
  A batch (\<^verbatim>\<open>DataChunk\<close>) of \<^verbatim>\<open>mask_string\<close>, row by row: row \<open>i\<close> holds the values
  at index \<open>i\<close> of the four argument vectors.  A value of the first three vectors
  may be NULL (\<open>None\<close>); the fourth vector is read through \<^verbatim>\<open>GetValue\<close> as a string.
\<close>

record mask_string_row =
  name_vector :: "string option"
  start_vector :: "int64 option"
  length_vector :: "int64 option"
  mask_vector :: string

text \<open>
  The executors of the host go through the rows of the batch in order, compute the
  result of each row and append it to the result vector; an exception in a row
  ends the batch.
\<close>

primrec execute_rows :: "('row \<Rightarrow> error + 'r) \<Rightarrow> 'row list \<Rightarrow> error + 'r list" where
  "execute_rows f [] = Inr []"
| "execute_rows f (row # rows) =
     bind_result (f row) (\<lambda>r.
     bind_result (execute_rows f rows) (\<lambda>rs. Inr (r # rs)))"

text \<open>The same for a lambda that records its reads: the records of the rows are appended.\<close>

primrec execute_rows_reads ::
  "('row \<Rightarrow> (error + 'r) \<times> data_read list) \<Rightarrow> 'row list
     \<Rightarrow> (error + 'r list) \<times> data_read list" where
  "execute_rows_reads f [] = (Inr [], [])"
| "execute_rows_reads f (row # rows) =
     (case f row of
        (Inl e, reads) \<Rightarrow> (Inl e, reads)
      | (Inr r, reads) \<Rightarrow>
          (case execute_rows_reads f rows of
             (res, reads') \<Rightarrow> (bind_result res (\<lambda>rs. Inr (r # rs)), reads @ reads')))"

text \<open>
  \<^verbatim>\<open>TernaryExecutor::Execute\<close>: a row with a NULL argument gives NULL without a call
  of the lambda, any other row the result of the lambda.
\<close>

definition ternary_row ::
  "('a \<Rightarrow> 'b \<Rightarrow> 'c \<Rightarrow> (error + 'r) \<times> data_read list)
     \<Rightarrow> 'a option \<times> 'b option \<times> 'c option \<Rightarrow> (error + 'r option) \<times> data_read list" where
  "ternary_row f row =
     (case row of
        (Some a, Some b, Some c) \<Rightarrow>
          (case f a b c of (res, reads) \<Rightarrow> (bind_result res (\<lambda>r. Inr (Some r)), reads))
      | _ \<Rightarrow> (Inr None, []))"

definition TernaryExecutor_Execute ::
  "('a \<Rightarrow> 'b \<Rightarrow> 'c \<Rightarrow> (error + 'r) \<times> data_read list)
     \<Rightarrow> ('a option \<times> 'b option \<times> 'c option) list
     \<Rightarrow> (error + 'r option list) \<times> data_read list" where
  "TernaryExecutor_Execute f rows = execute_rows_reads (ternary_row f) rows"

text \<open>
  \<^verbatim>\<open>MaskStringScalarFun\<close>: the executor runs over the first three vectors; the lambda
  reads the fourth vector at row 0 each time it is called.
\<close>

definition executor_columns ::
  "mask_string_row \<Rightarrow> string option \<times> int64 option \<times> int64 option" where
  "executor_columns r = (name_vector r, start_vector r, length_vector r)"

definition MaskStringScalarFun ::
  "char \<Rightarrow> mask_string_row list \<Rightarrow> (error + string option list) \<times> data_read list" where
  "MaskStringScalarFun beyond args =
     (case args of
        [] \<Rightarrow> (Inr [], [])
      | row0 # _ \<Rightarrow>
          TernaryExecutor_Execute (MaskStringLambda beyond (mask_vector row0))
            (map executor_columns args))"

section \<open>\<^verbatim>\<open>mask_email\<close>\<close>

text \<open>
  \<^verbatim>\<open>input.find(ch)\<close>: the position of the first occurrence of the byte, \<open>None\<close> for
  \<^verbatim>\<open>string::npos\<close>.
\<close>

fun find_char :: "string \<Rightarrow> char \<Rightarrow> nat option" where
  "find_char [] ch = None"
| "find_char (x # xs) ch = (if x = ch then Some 0 else map_option Suc (find_char xs ch))"

definition MaskEmailLambda :: "string \<Rightarrow> error + string" where
  "MaskEmailLambda email =
     (let input = email
      in case find_char input CHR ''@'' of
           None \<Rightarrow> Inr input
         | Some at_pos \<Rightarrow>
             if at_pos = 0 then Inr input
             else bind_result (substr input 0 1) (\<lambda>head.
                  bind_result (string_fill (at_pos - 1) CHR ''*'') (\<lambda>fill.
                  bind_result (substr_from input at_pos) (\<lambda>rest.
                  Inr (head @ fill @ rest)))))"

text \<open>\<^verbatim>\<open>UnaryExecutor::Execute\<close> of the host, for a lambda without state.\<close>

definition unary_row :: "('a \<Rightarrow> error + 'r) \<Rightarrow> 'a option \<Rightarrow> error + 'r option" where
  "unary_row f row =
     (case row of
        Some a \<Rightarrow> bind_result (f a) (\<lambda>r. Inr (Some r))
      | None \<Rightarrow> Inr None)"

definition UnaryExecutor_Execute ::
  "('a \<Rightarrow> error + 'r) \<Rightarrow> 'a option list \<Rightarrow> error + 'r option list" where
  "UnaryExecutor_Execute f rows = execute_rows (unary_row f) rows"

definition MaskEmailScalarFun :: "string option list \<Rightarrow> error + string option list" where
  "MaskEmailScalarFun args = UnaryExecutor_Execute MaskEmailLambda args"

section \<open>\<^verbatim>\<open>scramble_string\<close>\<close>

text \<open>
  The generator \<^verbatim>\<open>gen\<close> is a \<^verbatim>\<open>static thread_local\<close> of the lambda: its state \<open>'g\<close>
  outlives the row and the call, so it is passed in and returned.  The draw
  \<^verbatim>\<open>uniform_int_distribution<size_t>(0, i)(gen)\<close> is the parameter \<open>dis\<close>: from the
  bound \<open>i\<close> and the state it gives the index drawn and the next state.  The
  standard library promises an index in \<open>[0, i]\<close>, the property \<open>dis_in_range\<close>.
\<close>

definition dis_in_range :: "(nat \<Rightarrow> 'g \<Rightarrow> nat \<times> 'g) \<Rightarrow> bool" where
  "dis_in_range dis = (\<forall>i gen. fst (dis i gen) \<le> i)"

text \<open>
  \<^verbatim>\<open>std::swap(scrambled[i], scrambled[j])\<close>; \<^verbatim>\<open>operator[]\<close> does not check its
  index, an index beyond the string is the error \<open>OutOfBounds\<close> of the model.
\<close>

definition swap_at :: "'a list \<Rightarrow> nat \<Rightarrow> nat \<Rightarrow> error + 'a list" where
  "swap_at xs i j =
     (if i < length xs \<and> j < length xs then Inr (xs[i := xs ! j, j := xs ! i])
      else Inl OutOfBounds)"

text \<open>
  The loop \<^verbatim>\<open>for (size_t i = scrambled.length() - 1; i > 0; i--)\<close>, by recursion on
  \<open>i\<close>: the body runs for \<open>i = Suc k\<close> and the loop goes on with \<open>k\<close>.
\<close>

primrec shuffle_loop ::
  "(nat \<Rightarrow> 'g \<Rightarrow> nat \<times> 'g) \<Rightarrow> nat \<Rightarrow> 'a list \<Rightarrow> 'g \<Rightarrow> (error + 'a list) \<times> 'g" where
  "shuffle_loop dis 0 scrambled gen = (Inr scrambled, gen)"
| "shuffle_loop dis (Suc k) scrambled gen =
     (case dis (Suc k) gen of
        (j, gen') \<Rightarrow>
          (case swap_at scrambled (Suc k) j of
             Inl e \<Rightarrow> (Inl e, gen')
           | Inr scrambled' \<Rightarrow> shuffle_loop dis k scrambled' gen'))"

definition ScrambleStringLambda ::
  "(nat \<Rightarrow> 'g \<Rightarrow> nat \<times> 'g) \<Rightarrow> 'a list \<Rightarrow> 'g \<Rightarrow> (error + 'a list) \<times> 'g" where
  "ScrambleStringLambda dis input gen =
     (if input = [] then (Inr input, gen)
      else shuffle_loop dis (length input - 1) input gen)"

text \<open>
  \<^verbatim>\<open>UnaryExecutor::Execute\<close> again, for a lambda with the generator as its state: the
  state goes from one row to the next.
\<close>

primrec UnaryExecutor_Execute_gen ::
  "('a \<Rightarrow> 'g \<Rightarrow> (error + 'r) \<times> 'g) \<Rightarrow> 'a option list \<Rightarrow> 'g
     \<Rightarrow> (error + 'r option list) \<times> 'g" where
  "UnaryExecutor_Execute_gen f [] gen = (Inr [], gen)"
| "UnaryExecutor_Execute_gen f (row # rows) gen =
     (case row of
        None \<Rightarrow>
          (case UnaryExecutor_Execute_gen f rows gen of
             (Inl e, gen') \<Rightarrow> (Inl e, gen')
           | (Inr rs, gen') \<Rightarrow> (Inr (None # rs), gen'))
      | Some a \<Rightarrow>
          (case f a gen of
             (Inl e, gen') \<Rightarrow> (Inl e, gen')
           | (Inr r, gen') \<Rightarrow>
               (case UnaryExecutor_Execute_gen f rows gen' of
                  (Inl e, gen'') \<Rightarrow> (Inl e, gen'')
                | (Inr rs, gen'') \<Rightarrow> (Inr (Some r # rs), gen''))))"

definition ScrambleStringScalarFun ::
  "(nat \<Rightarrow> 'g \<Rightarrow> nat \<times> 'g) \<Rightarrow> string option list \<Rightarrow> 'g
     \<Rightarrow> (error + string option list) \<times> 'g" where
  "ScrambleStringScalarFun dis args gen =
     UnaryExecutor_Execute_gen (ScrambleStringLambda dis) args gen"

text \<open>
  The Fisher-Yates shuffle in the words of the specification: for \<open>i\<close> descending
  from \<open>L - 1\<close> to \<open>1\<close>, take the next draw \<open>j\<close> and swap the positions \<open>i\<close> and
  \<open>j\<close>.  The draws are given as a list, in the order in which they are made.
\<close>

definition swap_pos :: "'a list \<Rightarrow> nat \<times> nat \<Rightarrow> 'a list" where
  "swap_pos xs p = (case p of (i, j) \<Rightarrow> xs[i := xs ! j, j := xs ! i])"

definition fisher_yates_spec_from :: "nat \<Rightarrow> 'a list \<Rightarrow> nat list \<Rightarrow> 'a list" where
  "fisher_yates_spec_from k xs js = foldl swap_pos xs (zip (rev [1..<Suc k]) js)"

definition fisher_yates_spec :: "'a list \<Rightarrow> nat list \<Rightarrow> 'a list" where
  "fisher_yates_spec xs js = fisher_yates_spec_from (length xs - 1) xs js"

text \<open>
  The sequences of draws of a shuffle that starts at \<open>i = k\<close>: one draw for each \<open>i\<close>
  from \<open>k\<close> down to \<open>1\<close>, each in \<open>[0, i]\<close>.
\<close>

fun draw_seq :: "nat \<Rightarrow> nat list \<Rightarrow> bool" where
  "draw_seq 0 js = (js = [])"
| "draw_seq (Suc k) [] = False"
| "draw_seq (Suc k) (j # js) = (j \<le> Suc k \<and> draw_seq k js)"

text \<open>The draws that the loop makes from the state \<open>gen\<close>, in order.\<close>

primrec draws_of :: "(nat \<Rightarrow> 'g \<Rightarrow> nat \<times> 'g) \<Rightarrow> nat \<Rightarrow> 'g \<Rightarrow> nat list" where
  "draws_of dis 0 gen = []"
| "draws_of dis (Suc k) gen = (case dis (Suc k) gen of (j, gen') \<Rightarrow> j # draws_of dis k gen')"

text \<open>
  A sampler for the concrete evaluations below: the state is a number, the draw its
  remainder.
\<close>

definition dis_mod :: "nat \<Rightarrow> nat \<Rightarrow> nat \<times> nat" where
  "dis_mod i gen = (gen mod Suc i, gen div Suc i)"

section \<open>Signed 64-bit arithmetic\<close>

lemma sint_lo: "- (2 ^ 63) \<le> sint (w :: int64)"
  using sint_ge [of w] by simp

lemma sint_hi: "sint (w :: int64) < 2 ^ 63"
  using sint_lt [of w] by simp

lemma unat_nonneg:
  assumes a: "0 \<le> sint (w :: int64)" shows "unat w = nat (sint w)"
proof -
  define k where "k = nat (sint w)"
  have k: "int k = sint w" using a by (simp add: k_def)
  have "int k < 2 ^ 63" using sint_hi [of w] k by simp
  then have "k < 2 ^ 63" by simp
  then have kb: "k < 2 ^ LENGTH(64)" by simp
  have "of_int (int k) = w" unfolding k by simp
  then have "of_nat k = w" by simp
  then have "unat w = k" using kb by (rule of_nat_inverse)
  then show ?thesis by (simp add: k_def)
qed

lemma sint_sub_i64:
  "- (2 ^ 63) \<le> sint (a::int64) - sint b \<Longrightarrow> sint a - sint b < 2 ^ 63
     \<Longrightarrow> sint (a - b) = sint a - sint b"
  by (simp add: sint_word_diff signed_take_bit_int_eq_self)

lemma sint_add_i64:
  "- (2 ^ 63) \<le> sint (a::int64) + sint b \<Longrightarrow> sint a + sint b < 2 ^ 63
     \<Longrightarrow> sint (a + b) = sint a + sint b"
  by (simp add: sint_word_add signed_take_bit_int_eq_self)

lemma sint_of_nat_small: "n < 2 ^ 63 \<Longrightarrow> sint (of_nat n :: int64) = int n"
  by (simp add: signed_of_nat signed_take_bit_int_eq_self)

lemma sint_input_size:
  "length s \<le> string_max_size \<Longrightarrow> sint (of_nat (length s) :: int64) = int (length s)"
  by (rule sint_of_nat_small) (simp add: string_max_size_def)

lemma sint_min_i64: "sint (min_i64 a b) = min (sint a) (sint b)"
  by (simp add: min_i64_def min_def)

lemma sint_max_i64: "sint (max_i64 a b) = max (sint a) (sint b)"
  by (simp add: max_i64_def max_def)

section \<open>The clamped region of \<^verbatim>\<open>mask_string\<close>\<close>

lemma sint_mask_start:
  "length S \<le> string_max_size \<Longrightarrow>
   sint (mask_start S s) = max 0 (min (sint (s - 1)) (int (length S)))"
  by (simp add: mask_start_def sint_max_i64 sint_min_i64 sint_input_size)

lemma sint_mask_end:
  "length S \<le> string_max_size \<Longrightarrow>
   sint (mask_end S s n) =
     max (sint (mask_start S s)) (min (sint (mask_start S s + n)) (int (length S)))"
  by (simp add: mask_end_def sint_max_i64 sint_min_i64 sint_input_size)

lemma mask_start_range:
  "length S \<le> string_max_size \<Longrightarrow>
   0 \<le> sint (mask_start S s) \<and> sint (mask_start S s) \<le> int (length S)"
  by (simp add: sint_mask_start)

lemma mask_end_range:
  "length S \<le> string_max_size \<Longrightarrow>
   sint (mask_start S s) \<le> sint (mask_end S s n) \<and> sint (mask_end S s n) \<le> int (length S)"
  using mask_start_range [of S s] by (simp add: sint_mask_end)

text \<open>Without overflow at \<^verbatim>\<open>start - 1\<close> and \<^verbatim>\<open>start + length\<close> the two bounds are the clamps.\<close>

lemma mask_start_exact:
  assumes len: "length S \<le> string_max_size" and s: "- (2 ^ 63) < sint s"
  shows "sint (mask_start S s) = clamp (sint s - 1) 0 (int (length S))"
proof -
  have "sint (s - 1) = sint s - sint (1 :: int64)"
    using s sint_hi [of s] by (intro sint_sub_i64) simp_all
  then show ?thesis using len by (simp add: sint_mask_start clamp_def)
qed

lemma mask_end_exact:
  assumes len: "length S \<le> string_max_size"
    and n: "sint (mask_start S s) + sint n < 2 ^ 63"
  shows "sint (mask_end S s n)
           = clamp (sint (mask_start S s) + sint n) (sint (mask_start S s)) (int (length S))"
proof -
  have "0 \<le> sint (mask_start S s)" using mask_start_range [OF len, of s] by simp
  then have "sint (mask_start S s + n) = sint (mask_start S s) + sint n"
    using n sint_lo [of n] by (intro sint_add_i64) linarith+
  then show ?thesis using len by (simp add: sint_mask_end clamp_def)
qed

lemma masked_string_eq:
  assumes len: "length S \<le> string_max_size"
  shows "masked_string S s n c =
           take (nat (sint (mask_start S s))) S
           @ replicate (nat (sint (mask_end S s n) - sint (mask_start S s))) c
           @ drop (nat (sint (mask_end S s n))) S"
proof -
  let ?a = "mask_start S s" and ?b = "mask_end S s n"
  have ra: "0 \<le> sint ?a" "sint ?a \<le> int (length S)"
    using mask_start_range [OF len, of s] by simp_all
  have rb: "sint ?a \<le> sint ?b" "sint ?b \<le> int (length S)"
    using mask_end_range [OF len, of s n] by simp_all
  have L: "int (length S) < 2 ^ 63"
    using len by (simp add: string_max_size_def)
  have ua: "unat ?a = nat (sint ?a)" using ra by (simp add: unat_nonneg)
  have ub: "unat ?b = nat (sint ?b)" using ra rb by (simp add: unat_nonneg)
  have sd: "sint (?b - ?a) = sint ?b - sint ?a"
    using ra rb L sint_lo [of ?a] by (intro sint_sub_i64) linarith+
  have ud: "unat (?b - ?a) = nat (sint ?b - sint ?a)"
    using rb sd by (simp add: unat_nonneg)
  show ?thesis by (simp only: masked_string_def ua ub ud)
qed

lemma masked_string_shape:
  assumes len: "length S \<le> string_max_size"
  shows "\<exists>a b. a \<le> b \<and> b \<le> length S
           \<and> int a = sint (mask_start S s) \<and> int b = sint (mask_end S s n)
           \<and> masked_string S s n c = take a S @ replicate (b - a) c @ drop b S"
proof -
  let ?a = "nat (sint (mask_start S s))" and ?b = "nat (sint (mask_end S s n))"
  have ra: "0 \<le> sint (mask_start S s)"
    using mask_start_range [OF len, of s] by simp
  have rb: "sint (mask_start S s) \<le> sint (mask_end S s n)"
      "sint (mask_end S s n) \<le> int (length S)"
    using mask_end_range [OF len, of s n] by simp_all
  have d: "nat (sint (mask_end S s n) - sint (mask_start S s)) = ?b - ?a"
    using ra rb by linarith
  have "?a \<le> ?b" "?b \<le> length S" using ra rb by linarith+
  moreover have "int ?a = sint (mask_start S s)" "int ?b = sint (mask_end S s n)"
    using ra rb by simp_all
  moreover have "masked_string S s n c = take ?a S @ replicate (?b - ?a) c @ drop ?b S"
    by (simp only: masked_string_eq [OF len] d)
  ultimately show ?thesis by blast
qed

lemma length_masked_string:
  assumes len: "length S \<le> string_max_size"
  shows "length (masked_string S s n c) = length S"
proof -
  from masked_string_shape [OF len, of s n c]
  obtain a b where ab: "a \<le> b" "b \<le> length S"
    and r: "masked_string S s n c = take a S @ replicate (b - a) c @ drop b S"
    by blast
  show ?thesis unfolding r using ab by simp
qed

lemma GetData_at_0_nonempty: "mask0 \<noteq> [] \<Longrightarrow> fst (GetData_at beyond mask0 0) = hd mask0"
  by (cases mask0) (simp_all add: GetData_at_def)

lemma GetData_at_0_empty: "fst (GetData_at beyond [] 0) = beyond"
  by (simp add: GetData_at_def)

lemma snd_GetData_at: "snd (GetData_at beyond v i) = DataRead (length v) i"
  by (simp add: GetData_at_def)

text \<open>
  The reads of the lambda: one read of the fill value at index 0, whatever else
  happens in the row.
\<close>

lemma snd_MaskStringLambda:
  "snd (MaskStringLambda beyond mask0 S s n) = [DataRead (length mask0) 0]"
  by (simp add: MaskStringLambda_def Let_def GetData_at_def)

text \<open>The lambda returns the string of lines 82 to 84, with the byte it has read.\<close>

lemma fst_MaskStringLambda:
  assumes len: "length S \<le> string_max_size"
  shows "fst (MaskStringLambda beyond mask0 S s n)
           = Inr (masked_string S s n (fst (GetData_at beyond mask0 0)))"
proof -
  let ?a = "mask_start S s" and ?b = "mask_end S s n"
  let ?c = "fst (GetData_at beyond mask0 0)"
  have ra: "0 \<le> sint ?a" "sint ?a \<le> int (length S)"
    using mask_start_range [OF len, of s] by simp_all
  have rb: "sint ?a \<le> sint ?b" "sint ?b \<le> int (length S)"
    using mask_end_range [OF len, of s n] by simp_all
  have L: "int (length S) < 2 ^ 63"
    using len by (simp add: string_max_size_def)
  have ub: "unat ?b = nat (sint ?b)" using ra rb by (simp add: unat_nonneg)
  have sd: "sint (?b - ?a) = sint ?b - sint ?a"
    using ra rb L sint_lo [of ?a] by (intro sint_sub_i64) linarith+
  have ud: "unat (?b - ?a) = nat (sint ?b - sint ?a)"
    using rb sd by (simp add: unat_nonneg)
  have s1: "substr S 0 (unat ?a) = Inr (take (unat ?a) S)"
    by (simp add: substr_def)
  have s2: "string_fill (unat (?b - ?a)) ?c = Inr (replicate (unat (?b - ?a)) ?c)"
    using ra rb len by (simp add: string_fill_def ud)
  have s3: "substr_from S (unat ?b) = Inr (drop (unat ?b) S)"
    using rb by (simp add: substr_from_def ub)
  have "fst (MaskStringLambda beyond mask0 S s n)
      = bind_result (substr S 0 (unat ?a)) (\<lambda>head.
        bind_result (string_fill (unat (?b - ?a)) ?c) (\<lambda>fill.
        bind_result (substr_from S (unat ?b)) (\<lambda>rest.
        Inr (head @ fill @ rest))))"
    by (simp add: MaskStringLambda_def Let_def mask_start_def mask_end_def split_beta)
  also have "\<dots> = Inr (masked_string S s n ?c)"
    by (simp only: s1 s2 s3 bind_result_def sum.case masked_string_def)
  finally show ?thesis .
qed

lemma MaskStringLambda_eq:
  assumes "length S \<le> string_max_size"
  shows "MaskStringLambda beyond mask0 S s n
           = (Inr (masked_string S s n (fst (GetData_at beyond mask0 0))),
              [DataRead (length mask0) 0])"
  using fst_MaskStringLambda [OF assms, of beyond mask0 s n]
    snd_MaskStringLambda [of beyond mask0 S s n]
  by (metis prod.collapse)

lemma MaskStringLambda_run:
  assumes len: "length S \<le> string_max_size" and m: "mask0 \<noteq> []"
  shows "fst (MaskStringLambda beyond mask0 S s n) = Inr (masked_string S s n (hd mask0))"
  using fst_MaskStringLambda [OF len, of beyond mask0 s n] m
  by (simp add: GetData_at_0_nonempty)

lemma masked_string_reference:
  assumes len: "length S \<le> string_max_size"
    and s: "- (2 ^ 63) < sint s"
    and n: "clamp (sint s - 1) 0 (int (length S)) + sint n < 2 ^ 63"
  shows "masked_string S s n c = mask_string_ref S (sint s) (sint n) c"
proof -
  have a: "sint (mask_start S s) = clamp (sint s - 1) 0 (int (length S))"
    using len s by (rule mask_start_exact)
  have b: "sint (mask_end S s n)
      = clamp (clamp (sint s - 1) 0 (int (length S)) + sint n)
          (clamp (sint s - 1) 0 (int (length S))) (int (length S))"
    using mask_end_exact [OF len, of s n] n by (simp add: a)
  show ?thesis
    by (simp add: masked_string_eq [OF len] a b mask_string_ref_def Let_def)
qed

lemma masked_string_unchanged:
  assumes len: "length S \<le> string_max_size"
    and p: "sint n \<le> 0 \<or> int (length S) < sint s"
  shows "masked_string S s n c = S"
proof -
  have ra: "0 \<le> sint (mask_start S s)" "sint (mask_start S s) \<le> int (length S)"
    using mask_start_range [OF len, of s] by simp_all
  have L: "int (length S) < 2 ^ 63"
    using len by (simp add: string_max_size_def)
  have "sint (mask_end S s n) = sint (mask_start S s)"
  proof (cases "sint n \<le> 0")
    case True
    have "sint (mask_start S s + n) = sint (mask_start S s) + sint n"
      using ra L True sint_lo [of n] by (intro sint_add_i64) linarith+
    then show ?thesis using True len by (simp add: sint_mask_end)
  next
    case False
    with p have big: "int (length S) < sint s" by simp
    then have "sint (s - 1) = sint s - sint (1 :: int64)"
      using sint_hi [of s] by (intro sint_sub_i64) simp_all
    then have "sint (mask_start S s) = int (length S)"
      using big len by (simp add: sint_mask_start)
    then show ?thesis using len by (simp add: sint_mask_end)
  qed
  then show ?thesis by (simp add: masked_string_eq [OF len])
qed

section \<open>Counting the fill byte\<close>

lemma count_list_drop_mono:
  assumes "e1 \<le> e2"
  shows "count_list (drop e1 S) c \<le> (e2 - e1) + count_list (drop e2 S) c"
proof -
  let ?mid = "take (e2 - e1) (drop e1 S)"
  have "?mid @ drop (e2 - e1) (drop e1 S) = drop e1 S"
    by (rule append_take_drop_id)
  moreover have "drop (e2 - e1) (drop e1 S) = drop e2 S"
    using assms by simp
  ultimately have "drop e1 S = ?mid @ drop e2 S" by simp
  then have "count_list (drop e1 S) c = count_list ?mid c + count_list (drop e2 S) c"
    by (metis count_list_append)
  moreover have "count_list ?mid c \<le> length ?mid"
    by (rule count_le_length)
  moreover have "length ?mid \<le> e2 - e1" by simp
  ultimately show ?thesis by linarith
qed

lemma count_list_replicate_same: "count_list (replicate k c) c = k"
  by (induction k) simp_all

lemma masked_string_count_mono:
  assumes len: "length S \<le> string_max_size"
    and le: "sint n1 \<le> sint n2"
    and n: "sint (mask_start S s) + sint n2 < 2 ^ 63"
  shows "count_list (masked_string S s n1 c) c \<le> count_list (masked_string S s n2 c) c"
proof -
  from masked_string_shape [OF len, of s n1 c]
  obtain a b1 where 1: "a \<le> b1" "b1 \<le> length S"
      "int a = sint (mask_start S s)" "int b1 = sint (mask_end S s n1)"
      "masked_string S s n1 c = take a S @ replicate (b1 - a) c @ drop b1 S"
    by blast
  from masked_string_shape [OF len, of s n2 c]
  obtain a' b2 where 2: "a' \<le> b2" "b2 \<le> length S"
      "int a' = sint (mask_start S s)" "int b2 = sint (mask_end S s n2)"
      "masked_string S s n2 c = take a' S @ replicate (b2 - a') c @ drop b2 S"
    by blast
  have aa: "a' = a" using 1(3) 2(3) by linarith
  have n1: "sint (mask_start S s) + sint n1 < 2 ^ 63" using le n by linarith
  have "sint (mask_end S s n1) \<le> sint (mask_end S s n2)"
    using le by (simp add: mask_end_exact [OF len n1] mask_end_exact [OF len n] clamp_def)
  then have b: "b1 \<le> b2" using 1(4) 2(4) by linarith
  have "count_list (drop b1 S) c \<le> (b2 - b1) + count_list (drop b2 S) c"
    using b by (rule count_list_drop_mono)
  then have "count_list (take a S @ replicate (b1 - a) c @ drop b1 S) c
      \<le> count_list (take a S @ replicate (b2 - a) c @ drop b2 S) c"
    using 1(1) b by (simp add: count_list_replicate_same)
  then show ?thesis using 1(5) 2(5) aa by simp
qed

section \<open>The first \<^verbatim>\<open>@\<close> of \<^verbatim>\<open>mask_email\<close>\<close>

lemma find_char_None: "find_char S c = None \<longleftrightarrow> c \<notin> set S"
  by (induction S) auto

lemma find_char_Some:
  "find_char S c = Some p \<longleftrightarrow> p < length S \<and> S ! p = c \<and> (\<forall>q < p. S ! q \<noteq> c)"
proof (induction S arbitrary: p)
  case Nil
  then show ?case by simp
next
  case (Cons x xs)
  show ?case
  proof (cases "x = c")
    case True
    then show ?thesis by (cases p) auto
  next
    case False
    show ?thesis
    proof (cases p)
      case 0
      with False show ?thesis by auto
    next
      case (Suc p')
      have "(\<forall>q < Suc p'. (x # xs) ! q \<noteq> c) \<longleftrightarrow> (\<forall>q < p'. xs ! q \<noteq> c)"
        using False by (auto simp: less_Suc_eq_0_disj)
      with Suc False Cons.IH [of p'] show ?thesis by auto
    qed
  qed
qed

lemma MaskEmailLambda_masked:
  assumes len: "length S \<le> string_max_size"
    and f: "find_char S CHR ''@'' = Some p" and p: "0 < p"
  shows "MaskEmailLambda S = Inr (S ! 0 # replicate (p - 1) CHR ''*'' @ drop p S)"
proof -
  from f have pl: "p < length S" by (simp add: find_char_Some)
  then have h: "take (Suc 0) S = [S ! 0]"
    by (cases S) simp_all
  have s1: "substr S 0 1 = Inr [S ! 0]" by (simp add: substr_def h)
  have s2: "string_fill (p - 1) CHR ''*'' = Inr (replicate (p - 1) CHR ''*'')"
    using pl len by (simp add: string_fill_def)
  have s3: "substr_from S p = Inr (drop p S)"
    using pl by (simp add: substr_from_def)
  show ?thesis
    using p s1 s2 s3 by (simp add: MaskEmailLambda_def f bind_result_def)
qed

lemma MaskEmailLambda_unchanged:
  "find_char S CHR ''@'' = None \<or> find_char S CHR ''@'' = Some 0 \<Longrightarrow> MaskEmailLambda S = Inr S"
  by (auto simp: MaskEmailLambda_def)

lemma find_char_masked:
  assumes f: "find_char S CHR ''@'' = Some p" and p: "0 < p"
  shows "find_char (S ! 0 # replicate (p - 1) CHR ''*'' @ drop p S) CHR ''@'' = Some p"
proof -
  let ?R = "S ! 0 # replicate (p - 1) CHR ''*'' @ drop p S"
  from f have pl: "p < length S" and at: "S ! p = CHR ''@''"
    and before: "\<forall>q < p. S ! q \<noteq> CHR ''@''"
    by (simp_all add: find_char_Some)
  have lenR: "length ?R = length S" using pl p by simp
  have Rp: "?R ! p = CHR ''@''"
    using pl p at by (simp add: nth_Cons' nth_append)
  have Rq: "?R ! q \<noteq> CHR ''@''" if "q < p" for q
  proof (cases q)
    case 0
    with before p show ?thesis by simp
  next
    case (Suc q')
    with that have "q' < p - 1" by simp
    then show ?thesis using Suc by (simp add: nth_append)
  qed
  show ?thesis using lenR pl Rp Rq by (simp only: find_char_Some) blast
qed

lemma MaskEmailLambda_idem:
  assumes len: "length S \<le> string_max_size"
  shows "\<exists>r. MaskEmailLambda S = Inr r \<and> MaskEmailLambda r = Inr r"
proof (cases "find_char S CHR ''@'' = None \<or> find_char S CHR ''@'' = Some 0")
  case True
  then show ?thesis by (simp add: MaskEmailLambda_unchanged)
next
  case False
  then obtain p where f: "find_char S CHR ''@'' = Some p" and p: "0 < p" by auto
  let ?R = "S ! 0 # replicate (p - 1) CHR ''*'' @ drop p S"
  from f have pl: "p < length S" by (simp add: find_char_Some)
  have r: "MaskEmailLambda S = Inr ?R" using len f p by (rule MaskEmailLambda_masked)
  have lenR: "length ?R \<le> string_max_size" using pl p len by simp
  have fR: "find_char ?R CHR ''@'' = Some p" using f p by (rule find_char_masked)
  have "MaskEmailLambda ?R = Inr (?R ! 0 # replicate (p - 1) CHR ''*'' @ drop p ?R)"
    using lenR fR p by (rule MaskEmailLambda_masked)
  also have "?R ! 0 # replicate (p - 1) CHR ''*'' @ drop p ?R = ?R"
    using p by (cases p) simp_all
  finally show ?thesis using r by simp
qed

section \<open>The executors\<close>

text \<open>Where no row throws, the results and the reads of the rows are collected in order.\<close>

lemma execute_rows_reads_all:
  "(\<And>row. row \<in> set rows \<Longrightarrow> f row = (Inr (g row), l row)) \<Longrightarrow>
   execute_rows_reads f rows = (Inr (map g rows), concat (map l rows))"
  by (induction rows) (simp_all add: bind_result_def)

section \<open>\<^verbatim>\<open>mask_string\<close> on a batch\<close>

lemma MaskStringScalarFun_Cons:
  "MaskStringScalarFun beyond (row0 # rest) =
     execute_rows_reads (ternary_row (MaskStringLambda beyond (mask_vector row0)))
       (map executor_columns (row0 # rest))"
  by (simp add: MaskStringScalarFun_def TernaryExecutor_Execute_def)

lemma MaskStringScalarFun_unfold:
  "args \<noteq> [] \<Longrightarrow>
   MaskStringScalarFun beyond args =
     execute_rows_reads (ternary_row (MaskStringLambda beyond (mask_vector (args ! 0))))
       (map executor_columns args)"
  by (cases args) (simp_all add: MaskStringScalarFun_Cons del: list.map)

lemma ternary_row_mask:
  assumes "\<forall>S. fst row = Some S \<longrightarrow> length S \<le> string_max_size"
    and "fst (GetData_at beyond mask0 0) = c"
  shows "ternary_row (MaskStringLambda beyond mask0) row =
           (Inr (case row of
                   (Some S, Some s, Some n) \<Rightarrow> Some (masked_string S s n c)
                 | _ \<Rightarrow> None),
            case row of
              (Some S, Some s, Some n) \<Rightarrow> [DataRead (length mask0) 0]
            | _ \<Rightarrow> [])"
  using assms
  by (auto simp: ternary_row_def MaskStringLambda_eq bind_result_def
        split: prod.splits option.splits)

text \<open>
  The batch: every row that has no NULL gets the masked string with the byte read
  from the fill value of row 0, and adds one read of that value at index 0.
\<close>

lemma MaskStringScalarFun_eq:
  assumes len: "\<forall>r \<in> set args. \<forall>S. name_vector r = Some S \<longrightarrow> length S \<le> string_max_size"
    and ne: "args \<noteq> []"
    and c: "fst (GetData_at beyond (mask_vector (args ! 0)) 0) = c"
  shows "MaskStringScalarFun beyond args =
           (Inr (map (\<lambda>r. case executor_columns r of
                             (Some S, Some s, Some n) \<Rightarrow> Some (masked_string S s n c)
                           | _ \<Rightarrow> None) args),
            concat (map (\<lambda>r. case executor_columns r of
                             (Some S, Some s, Some n) \<Rightarrow>
                                [DataRead (length (mask_vector (args ! 0))) 0]
                           | _ \<Rightarrow> []) args))"
proof -
  let ?m = "mask_vector (args ! 0)"
  let ?g = "\<lambda>row. case row of
                  (Some S, Some s, Some n) \<Rightarrow> Some (masked_string S s n c)
                | _ \<Rightarrow> None"
  let ?l = "\<lambda>row :: string option \<times> int64 option \<times> int64 option. case row of
                  (Some S, Some s, Some n) \<Rightarrow> [DataRead (length ?m) 0]
                | _ \<Rightarrow> []"
  have "ternary_row (MaskStringLambda beyond ?m) row = (Inr (?g row), ?l row)"
    if "row \<in> set (map executor_columns args)" for row
  proof -
    from that obtain r where "r \<in> set args" "row = executor_columns r" by auto
    with len have "\<forall>S. fst row = Some S \<longrightarrow> length S \<le> string_max_size"
      by (simp add: executor_columns_def)
    then show ?thesis using c by (rule ternary_row_mask)
  qed
  then have "execute_rows_reads (ternary_row (MaskStringLambda beyond ?m))
               (map executor_columns args)
             = (Inr (map ?g (map executor_columns args)),
                concat (map ?l (map executor_columns args)))"
    by (rule execute_rows_reads_all)
  then show ?thesis using ne by (simp add: MaskStringScalarFun_unfold comp_def)
qed

lemma MaskStringScalarFun_run:
  assumes len: "\<forall>r \<in> set args. \<forall>S. name_vector r = Some S \<longrightarrow> length S \<le> string_max_size"
    and ne: "args \<noteq> []" and m: "mask_vector (args ! 0) = c # rest"
  shows "fst (MaskStringScalarFun beyond args) =
           Inr (map (\<lambda>r. case executor_columns r of
                            (Some S, Some s, Some n) \<Rightarrow> Some (masked_string S s n c)
                          | _ \<Rightarrow> None) args)"
proof -
  have c: "fst (GetData_at beyond (mask_vector (args ! 0)) 0) = c"
    using m by (simp add: GetData_at_def)
  show ?thesis unfolding MaskStringScalarFun_eq [OF len ne c] by (rule fst_conv)
qed

lemma MaskStringScalarFun_cong:
  assumes "map executor_columns args' = map executor_columns args"
    and "args \<noteq> [] \<longrightarrow> mask_vector (args' ! 0) = mask_vector (args ! 0)"
  shows "MaskStringScalarFun beyond args' = MaskStringScalarFun beyond args"
proof (cases "args = []")
  case True
  with assms(1) show ?thesis by simp
next
  case False
  with assms(1) have "args' \<noteq> []" by auto
  with False assms show ?thesis by (simp add: MaskStringScalarFun_unfold)
qed

text \<open>The reads of a batch are reads of the fill value of row 0 at index 0.\<close>

lemma MaskStringScalarFun_reads_subset:
  assumes len: "\<forall>r \<in> set args. \<forall>S. name_vector r = Some S \<longrightarrow> length S \<le> string_max_size"
    and ne: "args \<noteq> []"
  shows "set (snd (MaskStringScalarFun beyond args))
           \<subseteq> {DataRead (length (mask_vector (args ! 0))) 0}"
  by (auto simp: MaskStringScalarFun_eq [OF len ne refl] split: prod.splits option.splits)

lemma MaskStringScalarFun_reads_member:
  assumes len: "\<forall>r \<in> set args. \<forall>S. name_vector r = Some S \<longrightarrow> length S \<le> string_max_size"
    and r: "r \<in> set args" "name_vector r \<noteq> None" "start_vector r \<noteq> None"
      "length_vector r \<noteq> None"
  shows "DataRead (length (mask_vector (args ! 0))) 0
           \<in> set (snd (MaskStringScalarFun beyond args))"
proof -
  from r(1) have ne: "args \<noteq> []" by auto
  from r(2-4) obtain S s n where "executor_columns r = (Some S, Some s, Some n)"
    by (auto simp: executor_columns_def)
  with r(1) show ?thesis
    by (auto simp: MaskStringScalarFun_eq [OF len ne refl] intro!: bexI [of _ r])
qed

section \<open>The shuffle loop and the Fisher-Yates shuffle\<close>

lemma fisher_yates_from_0: "fisher_yates_spec_from 0 xs js = xs"
  by (simp add: fisher_yates_spec_from_def)

lemma fisher_yates_from_Nil: "fisher_yates_spec_from k xs [] = xs"
  by (simp add: fisher_yates_spec_from_def)

lemma fisher_yates_from_Suc:
  "fisher_yates_spec_from (Suc k) xs (j # js) = fisher_yates_spec_from k (swap_pos xs (Suc k, j)) js"
  by (simp add: fisher_yates_spec_from_def)

lemma length_swap_pos: "length (swap_pos xs p) = length xs"
  by (cases p) (simp add: swap_pos_def)

lemma mset_swap_pos:
  "i < length xs \<Longrightarrow> j < length xs \<Longrightarrow> mset (swap_pos xs (i, j)) = mset xs"
  by (simp add: swap_pos_def mset_swap)

lemma swap_at_swap_pos:
  "i < length xs \<Longrightarrow> j < length xs \<Longrightarrow> swap_at xs i j = Inr (swap_pos xs (i, j))"
  by (simp add: swap_at_def swap_pos_def)

lemma draw_seq_length: "draw_seq k js \<Longrightarrow> length js = k"
  by (induction k js rule: draw_seq.induct) simp_all

lemma dis_in_rangeD: "dis_in_range dis \<Longrightarrow> dis i gen = (j, gen') \<Longrightarrow> j \<le> i"
  by (metis dis_in_range_def fst_conv)

lemma draw_seq_draws_of: "dis_in_range dis \<Longrightarrow> draw_seq k (draws_of dis k gen)"
  by (induction k arbitrary: gen) (auto split: prod.splits dest: dis_in_rangeD)

lemma shuffle_loop_fisher_yates:
  assumes "dis_in_range dis" and "k < length xs"
  shows "fst (shuffle_loop dis k xs gen) = Inr (fisher_yates_spec_from k xs (draws_of dis k gen))"
  using assms(2)
proof (induction k arbitrary: xs gen)
  case 0
  then show ?case by (simp add: fisher_yates_from_0)
next
  case (Suc k)
  obtain j gen' where d: "dis (Suc k) gen = (j, gen')" by (cases "dis (Suc k) gen")
  with assms(1) have "j \<le> Suc k" by (rule dis_in_rangeD)
  with Suc.prems have j: "j < length xs" by simp
  have "k < length (swap_pos xs (Suc k, j))" using Suc.prems by (simp add: length_swap_pos)
  from Suc.IH [OF this, of gen'] show ?case
    using Suc.prems j d by (simp add: swap_at_swap_pos fisher_yates_from_Suc)
qed

lemma fisher_yates_from_perm:
  "draw_seq k js \<Longrightarrow> k < length xs \<Longrightarrow>
   length (fisher_yates_spec_from k xs js) = length xs \<and> mset (fisher_yates_spec_from k xs js) = mset xs"
proof (induction k js arbitrary: xs rule: draw_seq.induct)
  case (1 js)
  then show ?case by (simp add: fisher_yates_from_0)
next
  case (2 k)
  then show ?case by simp
next
  case (3 k j js)
  then have j: "j < length xs" "Suc k < length xs" and d: "draw_seq k js" by simp_all
  have "k < length (swap_pos xs (Suc k, j))" using j by (simp add: length_swap_pos)
  from "3.IH" [OF d this] show ?case
    using j by (simp add: fisher_yates_from_Suc length_swap_pos mset_swap_pos)
qed

lemma ScrambleStringLambda_fisher_yates:
  assumes "dis_in_range dis" and "input \<noteq> []"
  shows "fst (ScrambleStringLambda dis input gen)
           = Inr (fisher_yates_spec input (draws_of dis (length input - 1) gen))"
  using assms by (simp add: ScrambleStringLambda_def fisher_yates_spec_def shuffle_loop_fisher_yates)

lemma sort_of_mset_eq:
  fixes xs ys :: "'a :: linorder list"
  assumes "mset xs = mset ys"
  shows "sort xs = sort ys"
  using assms by (metis properties_for_sort sorted_sort mset_sort)

lemma ScrambleStringLambda_perm:
  assumes "dis_in_range dis"
  shows "\<exists>out gen'. ScrambleStringLambda dis input gen = (Inr out, gen')
           \<and> length out = length input \<and> mset out = mset input"
proof (cases "input = []")
  case True
  then show ?thesis by (simp add: ScrambleStringLambda_def)
next
  case False
  let ?js = "draws_of dis (length input - 1) gen"
  have d: "draw_seq (length input - 1) ?js" using assms by (rule draw_seq_draws_of)
  have k: "length input - 1 < length input" using False by simp
  from fisher_yates_from_perm [OF d k]
  have "length (fisher_yates_spec input ?js) = length input"
    "mset (fisher_yates_spec input ?js) = mset input"
    by (simp_all add: fisher_yates_spec_def)
  moreover have "ScrambleStringLambda dis input gen
      = (Inr (fisher_yates_spec input ?js), snd (ScrambleStringLambda dis input gen))"
    using ScrambleStringLambda_fisher_yates [OF assms False, of gen]
    by (metis prod.collapse)
  ultimately show ?thesis by blast
qed

lemma dis_mod_in_range: "dis_in_range dis_mod"
  by (simp add: dis_in_range_def dis_mod_def)

lemma UnaryExecutor_Execute_gen_rows:
  assumes "\<And>a gen. \<exists>r gen'. f a gen = (Inr r, gen') \<and> P a r"
  shows "\<exists>outs gen'. UnaryExecutor_Execute_gen f rows gen = (Inr outs, gen')
           \<and> list_all2 (\<lambda>row out. case row of None \<Rightarrow> out = None
                                   | Some a \<Rightarrow> \<exists>r. out = Some r \<and> P a r) rows outs"
proof (induction rows arbitrary: gen)
  case Nil
  then show ?case by simp
next
  case (Cons row rows)
  show ?case
  proof (cases row)
    case None
    from Cons.IH [of gen] obtain outs gen' where
      "UnaryExecutor_Execute_gen f rows gen = (Inr outs, gen')"
      "list_all2 (\<lambda>row out. case row of None \<Rightarrow> out = None
                                   | Some a \<Rightarrow> \<exists>r. out = Some r \<and> P a r) rows outs"
      by blast
    with None show ?thesis by simp
  next
    case (Some a)
    from assms [of a gen] obtain r g1 where r: "f a gen = (Inr r, g1)" "P a r" by blast
    from Cons.IH [of g1] obtain outs gen' where
      "UnaryExecutor_Execute_gen f rows g1 = (Inr outs, gen')"
      "list_all2 (\<lambda>row out. case row of None \<Rightarrow> out = None
                                   | Some a \<Rightarrow> \<exists>r. out = Some r \<and> P a r) rows outs"
      by blast
    with Some r show ?thesis by simp
  qed
qed

section \<open>Draws and permutations\<close>

lemma nth_swap_pos:
  "i < length xs \<Longrightarrow> j < length xs \<Longrightarrow>
   swap_pos xs (i, j) ! m = (if m = j then xs ! i else if m = i then xs ! j else xs ! m)"
  by (simp add: swap_pos_def nth_list_update)

lemma map_swap_pos:
  "i < length xs \<Longrightarrow> j < length xs \<Longrightarrow> swap_pos (map f xs) (i, j) = map f (swap_pos xs (i, j))"
  by (simp add: swap_pos_def map_update)

lemma take_swap_pos:
  assumes "i < n" and "j < n" and "n \<le> length xs"
  shows "take n (swap_pos xs (i, j)) = swap_pos (take n xs) (i, j)"
  using assms by (simp add: swap_pos_def take_update_swap)

lemma mset_take_swap_pos:
  assumes "i < n" and "j < n" and "n \<le> length xs"
  shows "mset (take n (swap_pos xs (i, j))) = mset (take n xs)"
  using assms by (simp add: take_swap_pos mset_swap_pos)

lemma distinct_swap_pos:
  "i < length xs \<Longrightarrow> j < length xs \<Longrightarrow> distinct (swap_pos xs (i, j)) = distinct xs"
  by (rule mset_eq_imp_distinct_iff) (simp add: mset_swap_pos)

text \<open>The shuffle commutes with a map over the elements: it permutes positions.\<close>

lemma fisher_yates_from_map:
  "draw_seq k js \<Longrightarrow> k < length xs \<Longrightarrow>
   fisher_yates_spec_from k (map f xs) js = map f (fisher_yates_spec_from k xs js)"
proof (induction k js arbitrary: xs rule: draw_seq.induct)
  case (1 js)
  then show ?case by (simp add: fisher_yates_from_0)
next
  case (2 k)
  then show ?case by simp
next
  case (3 k j js)
  then have j: "j < length xs" "Suc k < length xs" and d: "draw_seq k js" by simp_all
  have "k < length (swap_pos xs (Suc k, j))" using j by (simp add: length_swap_pos)
  from "3.IH" [OF d this] show ?case
    using j by (simp add: fisher_yates_from_Suc map_swap_pos)
qed

lemma fisher_yates_positions:
  assumes "draw_seq (length xs - 1) js" and "xs \<noteq> []"
  shows "fisher_yates_spec xs js = map ((!) xs) (fisher_yates_spec [0..<length xs] js)"
proof -
  have "fisher_yates_spec_from (length xs - 1) (map ((!) xs) [0..<length xs]) js
          = map ((!) xs) (fisher_yates_spec_from (length xs - 1) [0..<length xs] js)"
    using assms by (intro fisher_yates_from_map) simp_all
  then show ?thesis by (simp add: fisher_yates_spec_def map_nth)
qed

text \<open>The positions above \<open>k\<close> are not touched by a shuffle from \<open>k\<close>.\<close>

lemma fisher_yates_from_above:
  "draw_seq k js \<Longrightarrow> k < m \<Longrightarrow> m < length xs \<Longrightarrow> fisher_yates_spec_from k xs js ! m = xs ! m"
proof (induction k js arbitrary: xs rule: draw_seq.induct)
  case (1 js)
  then show ?case by (simp add: fisher_yates_from_0)
next
  case (2 k)
  then show ?case by simp
next
  case (3 k j js)
  then have j: "j \<le> Suc k" "Suc k < m" "m < length xs" and d: "draw_seq k js" by simp_all
  have "fisher_yates_spec_from k (swap_pos xs (Suc k, j)) js ! m = swap_pos xs (Suc k, j) ! m"
    using d j by (intro "3.IH") (simp_all add: length_swap_pos)
  also have "\<dots> = xs ! m" using j by (simp add: nth_swap_pos)
  finally show ?case by (simp add: fisher_yates_from_Suc)
qed

lemma fisher_yates_from_top:
  assumes "draw_seq k js" and "j \<le> Suc k" and "Suc k < length xs"
  shows "fisher_yates_spec_from (Suc k) xs (j # js) ! Suc k = xs ! j"
proof -
  have "fisher_yates_spec_from k (swap_pos xs (Suc k, j)) js ! Suc k = swap_pos xs (Suc k, j) ! Suc k"
    using assms by (intro fisher_yates_from_above) (simp_all add: length_swap_pos)
  also have "\<dots> = xs ! j" using assms by (simp add: nth_swap_pos)
  finally show ?thesis by (simp add: fisher_yates_from_Suc)
qed

text \<open>Two sequences of draws that give the same result on distinct elements are equal.\<close>

lemma fisher_yates_from_inj:
  "draw_seq k js1 \<Longrightarrow> draw_seq k js2 \<Longrightarrow> distinct xs \<Longrightarrow> k < length xs \<Longrightarrow>
   fisher_yates_spec_from k xs js1 = fisher_yates_spec_from k xs js2 \<Longrightarrow> js1 = js2"
proof (induction k arbitrary: xs js1 js2)
  case 0
  then show ?case by simp
next
  case (Suc k)
  from Suc.prems(1) obtain j1 r1 where 1: "js1 = j1 # r1" "j1 \<le> Suc k" "draw_seq k r1"
    by (cases js1) auto
  from Suc.prems(2) obtain j2 r2 where 2: "js2 = j2 # r2" "j2 \<le> Suc k" "draw_seq k r2"
    by (cases js2) auto
  have "xs ! j1 = fisher_yates_spec_from (Suc k) xs (j1 # r1) ! Suc k"
    using 1 Suc.prems(4) by (simp add: fisher_yates_from_top)
  also have "\<dots> = fisher_yates_spec_from (Suc k) xs (j2 # r2) ! Suc k"
    using Suc.prems(5) 1 2 by simp
  also have "\<dots> = xs ! j2"
    using 2 Suc.prems(4) by (simp add: fisher_yates_from_top)
  finally have "j1 = j2"
    using Suc.prems(3,4) 1(2) 2(2) by (simp add: nth_eq_iff_index_eq)
  moreover have "r1 = r2"
  proof (rule Suc.IH [OF 1(3) 2(3)])
    show "distinct (swap_pos xs (Suc k, j1))"
      using Suc.prems(3,4) 1(2) by (simp add: distinct_swap_pos)
    show "k < length (swap_pos xs (Suc k, j1))"
      using Suc.prems(4) by (simp add: length_swap_pos)
    show "fisher_yates_spec_from k (swap_pos xs (Suc k, j1)) r1
            = fisher_yates_spec_from k (swap_pos xs (Suc k, j1)) r2"
      using Suc.prems(5) 1(1) 2(1) \<open>j1 = j2\<close> by (simp add: fisher_yates_from_Suc)
  qed
  ultimately show ?case using 1(1) 2(1) by simp
qed

text \<open>Every arrangement of the first \<open>k + 1\<close> elements is the result of some draws.\<close>

lemma fisher_yates_from_surj:
  "k < length xs \<Longrightarrow> length zs = length xs \<Longrightarrow>
   mset (take (Suc k) zs) = mset (take (Suc k) xs) \<Longrightarrow>
   (\<forall>m. k < m \<longrightarrow> m < length xs \<longrightarrow> zs ! m = xs ! m) \<Longrightarrow>
   \<exists>js. draw_seq k js \<and> fisher_yates_spec_from k xs js = zs"
proof (induction k arbitrary: xs)
  case 0
  have "zs ! 0 = xs ! 0"
  proof -
    from "0.prems" have "mset [zs ! 0] = mset [xs ! 0]"
      by (simp add: take_Suc_conv_app_nth)
    then show ?thesis by simp
  qed
  with "0.prems" have "zs = xs"
    by (intro nth_equalityI) (auto simp: gr0_conv_Suc less_Suc_eq_0_disj)
  then show ?case by (simp add: fisher_yates_from_0)
next
  case (Suc k)
  let ?z = "zs ! Suc k"
  have tz: "take (Suc (Suc k)) zs = take (Suc k) zs @ [?z]"
    using Suc.prems(1,2) by (simp add: take_Suc_conv_app_nth)
  then have "?z \<in># mset (take (Suc (Suc k)) xs)"
    using Suc.prems(3) by (metis in_set_conv_decomp set_mset_mset)
  then have "?z \<in> set (take (Suc (Suc k)) xs)" by simp
  then obtain j where j: "j < Suc (Suc k)" "xs ! j = ?z"
    using Suc.prems(1) by (auto simp: in_set_conv_nth)
  let ?ys = "swap_pos xs (Suc k, j)"
  have jl: "j < length xs" "j \<le> Suc k" using j(1) Suc.prems(1) by simp_all
  have top: "?ys ! Suc k = ?z"
    using jl Suc.prems(1) j(2) by (simp add: nth_swap_pos)
  have ty: "take (Suc (Suc k)) ?ys = take (Suc k) ?ys @ [?z]"
    using Suc.prems(1) top by (simp add: take_Suc_conv_app_nth length_swap_pos)
  have "mset (take (Suc (Suc k)) ?ys) = mset (take (Suc (Suc k)) xs)"
    using j(1) Suc.prems(1) by (intro mset_take_swap_pos) simp_all
  with Suc.prems(3) have "mset (take (Suc k) zs @ [?z]) = mset (take (Suc k) ?ys @ [?z])"
    by (simp only: tz ty)
  then have m: "mset (take (Suc k) zs) = mset (take (Suc k) ?ys)" by simp
  have above: "\<forall>m. k < m \<longrightarrow> m < length ?ys \<longrightarrow> zs ! m = ?ys ! m"
  proof (intro allI impI)
    fix m assume m: "k < m" "m < length ?ys"
    show "zs ! m = ?ys ! m"
    proof (cases "m = Suc k")
      case True
      with top show ?thesis by simp
    next
      case False
      with m have "Suc k < m" "m < length xs" by (simp_all add: length_swap_pos)
      then show ?thesis
        using Suc.prems(1,4) jl by (simp add: nth_swap_pos)
    qed
  qed
  have "\<exists>js. draw_seq k js \<and> fisher_yates_spec_from k ?ys js = zs"
    using Suc.prems(1,2) m above by (intro Suc.IH) (simp_all add: length_swap_pos)
  then obtain js where "draw_seq k js" "fisher_yates_spec_from k ?ys js = zs" by blast
  then have "draw_seq (Suc k) (j # js) \<and> fisher_yates_spec_from (Suc k) xs (j # js) = zs"
    using jl by (simp add: fisher_yates_from_Suc)
  then show ?case by blast
qed

lemma fisher_yates_bij:
  assumes d: "distinct xs" and ne: "xs \<noteq> []"
  shows "bij_betw (fisher_yates_spec xs) {js. draw_seq (length xs - 1) js} {zs. mset zs = mset xs}"
  unfolding bij_betw_def
proof
  have k: "length xs - 1 < length xs" using ne by simp
  show "inj_on (fisher_yates_spec xs) {js. draw_seq (length xs - 1) js}"
    using d k by (auto intro!: inj_onI simp: fisher_yates_spec_def dest: fisher_yates_from_inj)
  show "fisher_yates_spec xs ` {js. draw_seq (length xs - 1) js} = {zs. mset zs = mset xs}"
  proof (intro equalityI subsetI)
    fix zs assume "zs \<in> fisher_yates_spec xs ` {js. draw_seq (length xs - 1) js}"
    then show "zs \<in> {zs. mset zs = mset xs}"
      using k by (auto simp: fisher_yates_spec_def fisher_yates_from_perm)
  next
    fix zs assume "zs \<in> {zs. mset zs = mset xs}"
    then have m: "mset zs = mset xs" by simp
    then have l: "length zs = length xs" by (rule mset_eq_length)
    have above: "\<forall>i. length xs - 1 < i \<longrightarrow> i < length xs \<longrightarrow> zs ! i = xs ! i"
      by (intro allI impI) linarith
    have whole: "mset (take (Suc (length xs - 1)) zs) = mset (take (Suc (length xs - 1)) xs)"
      using l m by simp
    have "\<exists>js. draw_seq (length xs - 1) js \<and> fisher_yates_spec_from (length xs - 1) xs js = zs"
      using k l whole above by (rule fisher_yates_from_surj)
    then show "zs \<in> fisher_yates_spec xs ` {js. draw_seq (length xs - 1) js}"
      by (auto simp: fisher_yates_spec_def)
  qed
qed

text \<open>There are \<open>(k + 1)!\<close> sequences of draws from \<open>k\<close>.\<close>

lemma draw_seq_Suc_set:
  "{js. draw_seq (Suc k) js} = (\<lambda>(j, js). j # js) ` ({..Suc k} \<times> {js. draw_seq k js})"
proof (intro equalityI subsetI)
  fix js assume "js \<in> {js. draw_seq (Suc k) js}"
  then obtain j r where "js = j # r" "j \<le> Suc k" "draw_seq k r" by (cases js) auto
  then show "js \<in> (\<lambda>(j, js). j # js) ` ({..Suc k} \<times> {js. draw_seq k js})" by auto
next
  fix js assume "js \<in> (\<lambda>(j, js). j # js) ` ({..Suc k} \<times> {js. draw_seq k js})"
  then show "js \<in> {js. draw_seq (Suc k) js}" by auto
qed

lemma finite_card_draw_seq:
  "finite {js. draw_seq k js} \<and> card {js. draw_seq k js} = fact (Suc k)"
proof (induction k)
  case 0
  then show ?case by simp
next
  case (Suc k)
  have inj: "inj_on (\<lambda>(j, js). j # js) ({..Suc k} \<times> {js. draw_seq k js})"
    by (auto intro!: inj_onI)
  have "finite ({..Suc k} \<times> {js. draw_seq k js})" using Suc.IH by simp
  then have f: "finite {js. draw_seq (Suc k) js}" by (simp only: draw_seq_Suc_set finite_imageI)
  have "card {js. draw_seq (Suc k) js} = card ({..Suc k} \<times> {js. draw_seq k js})"
    by (simp only: draw_seq_Suc_set card_image [OF inj])
  also have "\<dots> = Suc (Suc k) * fact (Suc k)"
    using Suc.IH by (simp add: card_cartesian_product)
  finally show ?case using f by simp
qed

section \<open>The claims\<close>

subsection \<open>C1\<close>

text \<open>
  Claim C1: for every input string \<open>S\<close> of byte length \<open>L\<close>, every 64-bit signed start
  \<open>s\<close>, length \<open>n\<close> and fill byte \<open>c\<close>, \<^verbatim>\<open>mask_string\<close> returns the reference
  definition, \<open>S[0 : s0]\<close>, then \<open>e - s0\<close> copies of \<open>c\<close>, then \<open>S[e : L]\<close>, with
  \<open>s0 = clamp (s - 1) 0 L\<close> and \<open>e = clamp (s0 + n) s0 L\<close>.

  The code does not do this at \<open>S = abc\<close>, \<open>s = 2\<close>, \<open>n = 2 ^ 63 - 1\<close> and \<open>c = *\<close>.
  Line 76 clamps \<^verbatim>\<open>start + length\<close> with \<^verbatim>\<open>std::min\<close> and \<^verbatim>\<open>std::max\<close>, but the sum
  \<open>1 + (2 ^ 63 - 1)\<close> overflows the \<^verbatim>\<open>int64_t\<close> before it is clamped: it is
  \<open>- (2 ^ 63)\<close>, the end is raised to the start and nothing is masked, where the
  reference definition masks the last two bytes.  The theorem evaluates the lambda
  and the reference definition at this input.
\<close>

theorem C1_overflow_at_failing_input:
  "fst (MaskStringLambda (CHR 0x00) ''*'' ''abc'' 2 9223372036854775807) = Inr ''abc''
   \<and> mask_string_ref ''abc'' (sint (2 :: int64)) (sint (9223372036854775807 :: int64)) CHR ''*''
       = ''a**''
   \<and> fst (MaskStringLambda (CHR 0x00) ''*'' ''abc'' 2 9223372036854775807)
       \<noteq> Inr (mask_string_ref ''abc'' (sint (2 :: int64))
               (sint (9223372036854775807 :: int64)) CHR ''*'')"
  by (simp add: MaskStringLambda_def bind_result_def GetData_at_def substr_def
        substr_from_def string_fill_def string_max_size_def min_i64_def max_i64_def
        mask_string_ref_def clamp_def Let_def numeral_2_eq_2)

subsection \<open>C2\<close>

text \<open>
  Claim C2.  For every input string \<open>S\<close>, \<^verbatim>\<open>mask_email\<close> returns \<open>S\<close> unchanged if
  \<open>S\<close> contains no \<^verbatim>\<open>@\<close> byte or if the first \<^verbatim>\<open>@\<close> byte is at position 0; otherwise,
  with \<open>p\<close> the position of the first \<^verbatim>\<open>@\<close> byte, it returns \<open>S[0]\<close>, then \<open>p - 1\<close>
  asterisks, then \<open>S[p : L]\<close>.
\<close>

theorem C2_mask_email:
  assumes len: "length S \<le> string_max_size"
  shows "(CHR ''@'' \<notin> set S \<longrightarrow> MaskEmailLambda S = Inr S)
       \<and> (\<forall>p. p < length S \<and> S ! p = CHR ''@'' \<and> (\<forall>q < p. S ! q \<noteq> CHR ''@'') \<longrightarrow>
             MaskEmailLambda S =
               (if p = 0 then Inr S
                else Inr (S ! 0 # replicate (p - 1) CHR ''*'' @ drop p S)))"
proof (intro conjI allI impI)
  assume "CHR ''@'' \<notin> set S"
  then show "MaskEmailLambda S = Inr S"
    by (simp add: MaskEmailLambda_unchanged find_char_None)
next
  fix p
  assume "p < length S \<and> S ! p = CHR ''@'' \<and> (\<forall>q < p. S ! q \<noteq> CHR ''@'')"
  then have f: "find_char S CHR ''@'' = Some p" by (simp add: find_char_Some)
  show "MaskEmailLambda S =
          (if p = 0 then Inr S else Inr (S ! 0 # replicate (p - 1) CHR ''*'' @ drop p S))"
  proof (cases "p = 0")
    case True
    with f show ?thesis by (simp add: MaskEmailLambda_unchanged)
  next
    case False
    then show ?thesis using MaskEmailLambda_masked [OF len f] by simp
  qed
qed

theorem C2_mask_email_witness:
  "MaskEmailLambda ''ab@c'' = Inr ''a*@c'' \<and> MaskEmailLambda ''abc'' = Inr ''abc''"
proof -
  have 1: "length ''ab@c'' \<le> string_max_size" "length ''abc'' \<le> string_max_size"
    by (simp_all add: string_max_size_def)
  have 2: "2 < length ''ab@c'' \<and> ''ab@c'' ! 2 = CHR ''@''
            \<and> (\<forall>q < 2. ''ab@c'' ! q \<noteq> CHR ''@'')"
    by (simp add: less_Suc_eq numeral_2_eq_2)
  have 3: "CHR ''@'' \<notin> set ''abc''" by simp
  from C2_mask_email [OF 1(1)] 2
  have "MaskEmailLambda ''ab@c'' =
          (if (2::nat) = 0 then Inr ''ab@c''
           else Inr (''ab@c'' ! 0 # replicate (2 - 1) CHR ''*'' @ drop 2 ''ab@c''))"
    by blast
  moreover from C2_mask_email [OF 1(2)] 3 have "MaskEmailLambda ''abc'' = Inr ''abc''"
    by blast
  ultimately show ?thesis by (simp add: numeral_2_eq_2)
qed

subsection \<open>C3\<close>

text \<open>
  Claim C3.  For every input string \<open>S\<close>, the output of \<^verbatim>\<open>scramble_string\<close> has the
  byte length of \<open>S\<close> and the byte multiset of \<open>S\<close> (the sorted bytes of the output
  are the sorted bytes of the input), whatever the draws of the generator are within
  their ranges; the empty input yields the empty output.  The same holds for every
  row of a batch, with the generator state passed from row to row.
\<close>

theorem C3_scramble_string_permutation:
  assumes "dis_in_range dis"
  shows "(\<exists>out gen'. ScrambleStringLambda dis S gen = (Inr out, gen')
            \<and> length out = length S \<and> mset out = mset S
            \<and> sort (map of_char out :: nat list) = sort (map of_char S))
       \<and> ScrambleStringLambda dis ([] :: string) gen = (Inr [], gen)
       \<and> (\<exists>outs gen'. ScrambleStringScalarFun dis args gen = (Inr outs, gen')
            \<and> list_all2 (\<lambda>row out. case row of None \<Rightarrow> out = None
                            | Some s \<Rightarrow> \<exists>r. out = Some r \<and> length r = length s \<and> mset r = mset s)
                 args outs)"
proof (intro conjI)
  from ScrambleStringLambda_perm [OF assms, of S gen]
  obtain out gen' where o: "ScrambleStringLambda dis S gen = (Inr out, gen')"
    "length out = length S" "mset out = mset S" by blast
  from o(3) have "mset (map of_char out :: nat list) = mset (map of_char S)" by simp
  then have "sort (map of_char out :: nat list) = sort (map of_char S)"
    by (rule sort_of_mset_eq)
  with o show "\<exists>out gen'. ScrambleStringLambda dis S gen = (Inr out, gen')
            \<and> length out = length S \<and> mset out = mset S
            \<and> sort (map of_char out :: nat list) = sort (map of_char S)"
    by blast
next
  show "ScrambleStringLambda dis ([] :: string) gen = (Inr [], gen)"
    by (simp add: ScrambleStringLambda_def)
next
  have "\<exists>r gen'. ScrambleStringLambda dis a g = (Inr r, gen')
          \<and> length r = length a \<and> mset r = mset a" for a :: string and g
    using assms by (rule ScrambleStringLambda_perm)
  then show "\<exists>outs gen'. ScrambleStringScalarFun dis args gen = (Inr outs, gen')
            \<and> list_all2 (\<lambda>row out. case row of None \<Rightarrow> out = None
                            | Some s \<Rightarrow> \<exists>r. out = Some r \<and> length r = length s \<and> mset r = mset s)
                 args outs"
    unfolding ScrambleStringScalarFun_def
    by (rule UnaryExecutor_Execute_gen_rows
          [where P = "\<lambda>a r. length r = length a \<and> mset r = mset a"])
qed

theorem C3_scramble_string_permutation_witness:
  "dis_in_range dis_mod
   \<and> (\<exists>out gen'. ScrambleStringLambda dis_mod ''password'' 12345 = (Inr out, gen')
         \<and> length out = length ''password'' \<and> mset out = mset ''password'')
   \<and> ScrambleStringLambda dis_mod ([] :: string) 12345 = (Inr [], 12345)"
  using C3_scramble_string_permutation [OF dis_mod_in_range, of "''password''" 12345 "[]"]
    dis_mod_in_range
  by auto

subsection \<open>C4\<close>

text \<open>
  Claim C4.  For every batch whose fourth argument has at row 0 a value with first
  byte \<open>c\<close>, \<^verbatim>\<open>mask_string\<close> uses \<open>c\<close> as the fill byte of every row \<open>i\<close> in
  \<open>[0, N)\<close>: the result of the batch is, row by row, the masked string built with
  \<open>c\<close> (NULL where one of the first three arguments is NULL).  The output does not
  depend on the values of the fourth argument at any row other than 0: a batch with
  the same first three columns and the same fourth value at row 0 has the same
  output.
\<close>

theorem C4_mask_string_fill_row0:
  assumes "\<forall>r \<in> set args. \<forall>S. name_vector r = Some S \<longrightarrow> length S \<le> string_max_size"
    and "args \<noteq> []" and "mask_vector (args ! 0) = c # rest"
  shows "fst (MaskStringScalarFun beyond args) =
           Inr (map (\<lambda>r. case executor_columns r of
                            (Some S, Some s, Some n) \<Rightarrow> Some (masked_string S s n c)
                          | _ \<Rightarrow> None) args)
       \<and> (\<forall>args'. map executor_columns args' = map executor_columns args
                   \<and> mask_vector (args' ! 0) = mask_vector (args ! 0)
             \<longrightarrow> MaskStringScalarFun beyond args' = MaskStringScalarFun beyond args)"
proof (intro conjI allI impI)
  show "fst (MaskStringScalarFun beyond args) =
           Inr (map (\<lambda>r. case executor_columns r of
                            (Some S, Some s, Some n) \<Rightarrow> Some (masked_string S s n c)
                          | _ \<Rightarrow> None) args)"
    using assms by (rule MaskStringScalarFun_run)
next
  fix args'
  assume "map executor_columns args' = map executor_columns args
            \<and> mask_vector (args' ! 0) = mask_vector (args ! 0)"
  then show "MaskStringScalarFun beyond args' = MaskStringScalarFun beyond args"
    by (intro MaskStringScalarFun_cong) simp_all
qed

theorem C4_mask_string_fill_row0_witness:
  "fst (MaskStringScalarFun (CHR 0x00)
     [\<lparr>name_vector = Some ''hello'', start_vector = Some 2, length_vector = Some 2,
        mask_vector = ''*x''\<rparr>,
      \<lparr>name_vector = Some ''abc'', start_vector = Some 1, length_vector = Some 1,
        mask_vector = ''#''\<rparr>,
      \<lparr>name_vector = None, start_vector = Some 1, length_vector = Some 1,
        mask_vector = ''-''\<rparr>])
   = Inr [Some (masked_string ''hello'' 2 2 CHR ''*''),
          Some (masked_string ''abc'' 1 1 CHR ''*''), None]"
proof -
  let ?A = "[\<lparr>name_vector = Some ''hello'', start_vector = Some 2,
            length_vector = Some 2, mask_vector = ''*x''\<rparr>,
          \<lparr>name_vector = Some ''abc'', start_vector = Some 1, length_vector = Some 1,
            mask_vector = ''#''\<rparr>,
          \<lparr>name_vector = None, start_vector = Some 1, length_vector = Some 1,
            mask_vector = ''-''\<rparr>]"
  have h1: "\<forall>r \<in> set ?A. \<forall>S. name_vector r = Some S \<longrightarrow> length S \<le> string_max_size"
    by (simp add: string_max_size_def)
  have h2: "?A \<noteq> []" by simp
  have h3: "mask_vector (?A ! 0) = CHR ''*'' # ''x''" by simp
  from C4_mask_string_fill_row0 [OF h1 h2 h3, THEN conjunct1, of "CHR 0x00"]
  show ?thesis by (simp add: executor_columns_def)
qed

subsection \<open>C5\<close>

text \<open>
  Claim C5.  If the value of the fourth argument at row 0 is the empty string, the
  lambda of \<^verbatim>\<open>mask_string\<close> reads the byte at index 0 of a value of length 0: the
  read is out of bounds, at the first byte past the end of the value.  The row goes
  on with the byte found there and the batch still returns its rows; the evaluator
  makes such a read on every batch with a row that has no NULL among the first three
  arguments.  If the fill value is not empty, no read of the evaluator is out of
  bounds and no exception occurs.  (The strings are not longer than \<^verbatim>\<open>max_size()\<close>.)
\<close>

theorem C5_mask_string_fill_bounds:
  assumes "\<forall>r \<in> set args. \<forall>S. name_vector r = Some S \<longrightarrow> length S \<le> string_max_size"
  shows "(\<forall>S s n. \<exists>r. snd (MaskStringLambda beyond [] S s n) = [r]
              \<and> out_of_bounds r \<and> read_index r = value_size r)
       \<and> (mask_vector (args ! 0) = []
            \<and> (\<exists>r \<in> set args. name_vector r \<noteq> None \<and> start_vector r \<noteq> None
                                \<and> length_vector r \<noteq> None)
          \<longrightarrow> (\<exists>r \<in> set (snd (MaskStringScalarFun beyond args)).
                   out_of_bounds r \<and> read_index r = value_size r)
              \<and> fst (MaskStringScalarFun beyond args) =
                  Inr (map (\<lambda>r. case executor_columns r of
                            (Some S, Some s, Some n) \<Rightarrow> Some (masked_string S s n beyond)
                          | _ \<Rightarrow> None) args))
       \<and> ((args \<noteq> [] \<longrightarrow> mask_vector (args ! 0) \<noteq> [])
          \<longrightarrow> (\<forall>r \<in> set (snd (MaskStringScalarFun beyond args)). \<not> out_of_bounds r)
              \<and> (\<exists>out. fst (MaskStringScalarFun beyond args) = Inr out
                       \<and> length out = length args))"
proof (intro conjI impI allI)
  show "\<exists>r. snd (MaskStringLambda beyond [] S s n) = [r]
              \<and> out_of_bounds r \<and> read_index r = value_size r" for S s n
    by (simp add: snd_MaskStringLambda out_of_bounds_def)
next
  assume a: "mask_vector (args ! 0) = []
            \<and> (\<exists>r \<in> set args. name_vector r \<noteq> None \<and> start_vector r \<noteq> None
                                \<and> length_vector r \<noteq> None)"
  then obtain r where r: "r \<in> set args" "name_vector r \<noteq> None" "start_vector r \<noteq> None"
      "length_vector r \<noteq> None" by blast
  from MaskStringScalarFun_reads_member [OF assms r, of beyond] a
  have "DataRead 0 0 \<in> set (snd (MaskStringScalarFun beyond args))" by simp
  moreover have "out_of_bounds (DataRead 0 0) \<and> read_index (DataRead 0 0) = value_size (DataRead 0 0)"
    by (simp add: out_of_bounds_def)
  ultimately show "\<exists>r \<in> set (snd (MaskStringScalarFun beyond args)).
                   out_of_bounds r \<and> read_index r = value_size r"
    by blast
  from r(1) have ne: "args \<noteq> []" by auto
  have c: "fst (GetData_at beyond (mask_vector (args ! 0)) 0) = beyond"
    using a by (simp add: GetData_at_0_empty)
  show "fst (MaskStringScalarFun beyond args) =
                  Inr (map (\<lambda>r. case executor_columns r of
                            (Some S, Some s, Some n) \<Rightarrow> Some (masked_string S s n beyond)
                          | _ \<Rightarrow> None) args)"
    unfolding MaskStringScalarFun_eq [OF assms ne c] by (rule fst_conv)
next
  assume a: "args \<noteq> [] \<longrightarrow> mask_vector (args ! 0) \<noteq> []"
  show "\<forall>r \<in> set (snd (MaskStringScalarFun beyond args)). \<not> out_of_bounds r"
  proof (cases "args = []")
    case True
    then show ?thesis by (simp add: MaskStringScalarFun_def)
  next
    case False
    with a have m: "mask_vector (args ! 0) \<noteq> []" by simp
    from MaskStringScalarFun_reads_subset [OF assms False, of beyond] m
    show ?thesis by (auto simp: out_of_bounds_def)
  qed
  show "\<exists>out. fst (MaskStringScalarFun beyond args) = Inr out \<and> length out = length args"
  proof (cases "args = []")
    case True
    then show ?thesis by (simp add: MaskStringScalarFun_def)
  next
    case False
    show ?thesis unfolding MaskStringScalarFun_eq [OF assms False refl] by simp
  qed
qed

theorem C5_mask_string_fill_bounds_witness:
  "snd (MaskStringScalarFun (CHR 0x00)
        [\<lparr>name_vector = Some ''abc'', start_vector = Some 1, length_vector = Some 1,
           mask_vector = ''''\<rparr>]) = [DataRead 0 0]
   \<and> out_of_bounds (DataRead 0 0)
   \<and> fst (MaskStringScalarFun (CHR 0x00)
        [\<lparr>name_vector = Some ''abc'', start_vector = Some 1, length_vector = Some 1,
           mask_vector = ''''\<rparr>])
       = Inr [Some (masked_string ''abc'' 1 1 (CHR 0x00))]
   \<and> snd (MaskStringScalarFun (CHR 0x00)
        [\<lparr>name_vector = Some ''abc'', start_vector = Some 1, length_vector = Some 1,
           mask_vector = ''*''\<rparr>]) = [DataRead 1 0]
   \<and> \<not> out_of_bounds (DataRead 1 0)
   \<and> (\<exists>out. fst (MaskStringScalarFun (CHR 0x00)
        [\<lparr>name_vector = Some ''abc'', start_vector = Some 1, length_vector = Some 1,
           mask_vector = ''*''\<rparr>]) = Inr out \<and> length out = 1)"
proof -
  let ?A0 = "[\<lparr>name_vector = Some ''abc'', start_vector = Some 1,
        length_vector = Some 1, mask_vector = ''''\<rparr>]"
  let ?A1 = "[\<lparr>name_vector = Some ''abc'', start_vector = Some 1,
        length_vector = Some 1, mask_vector = ''*''\<rparr>]"
  note ev = MaskStringScalarFun_def TernaryExecutor_Execute_def ternary_row_def
    executor_columns_def MaskStringLambda_def GetData_at_def bind_result_def Let_def
  have e0: "snd (MaskStringScalarFun (CHR 0x00) ?A0) = [DataRead 0 0]"
    by (simp add: ev split: prod.splits sum.splits)
  have e1: "snd (MaskStringScalarFun (CHR 0x00) ?A1) = [DataRead 1 0]"
    by (simp add: ev split: prod.splits sum.splits)
  have h0: "\<forall>r \<in> set ?A0. \<forall>S. name_vector r = Some S \<longrightarrow> length S \<le> string_max_size"
    by (simp add: string_max_size_def)
  have h1: "\<forall>r \<in> set ?A1. \<forall>S. name_vector r = Some S \<longrightarrow> length S \<le> string_max_size"
    by (simp add: string_max_size_def)
  from C5_mask_string_fill_bounds [OF h0, of "CHR 0x00"]
  have c0: "fst (MaskStringScalarFun (CHR 0x00) ?A0)
              = Inr [Some (masked_string ''abc'' 1 1 (CHR 0x00))]"
    and o0: "\<exists>r \<in> set (snd (MaskStringScalarFun (CHR 0x00) ?A0)). out_of_bounds r"
    by (auto simp: executor_columns_def)
  from C5_mask_string_fill_bounds [OF h1, of "CHR 0x00"]
  have c1: "\<exists>out. fst (MaskStringScalarFun (CHR 0x00) ?A1) = Inr out \<and> length out = 1"
    and o1: "\<forall>r \<in> set (snd (MaskStringScalarFun (CHR 0x00) ?A1)). \<not> out_of_bounds r"
    by auto
  from o0 e0 have "out_of_bounds (DataRead 0 0)" by simp
  moreover from o1 e1 have "\<not> out_of_bounds (DataRead 1 0)" by simp
  ultimately show ?thesis using e0 e1 c0 c1 by simp
qed

subsection \<open>C6\<close>

text \<open>
  Claim C6.  \<^verbatim>\<open>scramble_string\<close> computes an unbiased in-place Fisher-Yates shuffle.
  For every input of length \<open>L \<ge> 1\<close> the loop returns what the shuffle of the
  specification returns on the draws that the loop makes: with \<open>i\<close> descending from
  \<open>L - 1\<close> to \<open>1\<close> it draws \<open>j\<close> from \<open>[0, i]\<close> and swaps the positions \<open>i\<close> and \<open>j\<close>.
  For every sequence of draws the result is the input read through a permutation of
  its positions; the sequences of draws and the permutations of the \<open>L\<close> positions
  are in bijection, and there are \<open>L!\<close> of them.  So with uniform independent draws
  every sequence of draws has the probability \<open>1 / L!\<close>, and so has every
  permutation.
\<close>

theorem C6_scramble_fisher_yates_uniform:
  assumes "xs \<noteq> []" and "dis_in_range dis"
  shows "fst (ScrambleStringLambda dis xs gen)
           = Inr (fisher_yates_spec xs (draws_of dis (length xs - 1) gen))
       \<and> draw_seq (length xs - 1) (draws_of dis (length xs - 1) gen)
       \<and> (\<forall>js. draw_seq (length xs - 1) js \<longrightarrow>
             fisher_yates_spec xs js = map ((!) xs) (fisher_yates_spec [0..<length xs] js))
       \<and> bij_betw (fisher_yates_spec [0..<length xs]) {js. draw_seq (length xs - 1) js}
             {p. mset p = mset [0..<length xs]}
       \<and> card {js. draw_seq (length xs - 1) js} = fact (length xs)"
proof (intro conjI allI impI)
  show "fst (ScrambleStringLambda dis xs gen)
          = Inr (fisher_yates_spec xs (draws_of dis (length xs - 1) gen))"
    using assms(2,1) by (rule ScrambleStringLambda_fisher_yates)
  show "draw_seq (length xs - 1) (draws_of dis (length xs - 1) gen)"
    using assms(2) by (rule draw_seq_draws_of)
  show "fisher_yates_spec xs js = map ((!) xs) (fisher_yates_spec [0..<length xs] js)"
    if "draw_seq (length xs - 1) js" for js
    using that assms(1) by (rule fisher_yates_positions)
  have "bij_betw (fisher_yates_spec [0..<length xs])
          {js. draw_seq (length [0..<length xs] - 1) js}
          {p. mset p = mset [0..<length xs]}"
    using assms(1) by (intro fisher_yates_bij) simp_all
  then show "bij_betw (fisher_yates_spec [0..<length xs]) {js. draw_seq (length xs - 1) js}
          {p. mset p = mset [0..<length xs]}"
    by simp
  have e: "Suc (length xs - 1) = length xs" using assms(1) by simp
  have "card {js. draw_seq (length xs - 1) js} = fact (Suc (length xs - 1))"
    using finite_card_draw_seq [of "length xs - 1"] by (rule conjunct2)
  then show "card {js. draw_seq (length xs - 1) js} = fact (length xs)"
    by (simp only: e)
qed

theorem C6_scramble_fisher_yates_uniform_witness:
  "''abc'' \<noteq> [] \<and> dis_in_range dis_mod
   \<and> fst (ScrambleStringLambda dis_mod ''abc'' 4)
       = Inr (fisher_yates_spec ''abc'' (draws_of dis_mod (length ''abc'' - 1) 4))
   \<and> bij_betw (fisher_yates_spec [0..<length ''abc''])
        {js. draw_seq (length ''abc'' - 1) js} {p. mset p = mset [0..<length ''abc'']}
   \<and> card {js. draw_seq (length ''abc'' - 1) js} = fact (length ''abc'')"
proof -
  have ne: "''abc'' \<noteq> []" by simp
  from C6_scramble_fisher_yates_uniform [OF ne dis_mod_in_range, of 4] ne dis_mod_in_range
  show ?thesis by (simp only: simp_thms)
qed

subsection \<open>C7\<close>

text \<open>
  Claim C7.  For every input string \<open>S\<close>, every start \<open>s\<close>, length \<open>n\<close> and fill
  value (not empty, its first byte is the fill byte), \<^verbatim>\<open>mask_string\<close> returns a string
  of the byte length of \<open>S\<close>.  This holds for every pair of 64-bit values, also where
  the arithmetic wraps around.
\<close>

theorem C7_mask_string_length:
  assumes "length S \<le> string_max_size" and "mask0 \<noteq> []"
  shows "\<exists>out. fst (MaskStringLambda beyond mask0 S s n) = Inr out \<and> length out = length S"
  using assms by (simp add: MaskStringLambda_run length_masked_string)

theorem C7_mask_string_length_witness:
  "\<exists>out. fst (MaskStringLambda (CHR 0x00) ''*'' ''hello world'' 1 100) = Inr out
     \<and> length out = length ''hello world''"
  using C7_mask_string_length [of "''hello world''" "''*''" "CHR 0x00" 1 100]
  by (simp add: string_max_size_def)

subsection \<open>C8\<close>

text \<open>
  Claim C8.  For every string \<open>S\<close> that contains an \<^verbatim>\<open>@\<close> byte at a position
  \<open>p > 0\<close>, \<^verbatim>\<open>mask_email\<close> applied to its own output returns that output.
\<close>

theorem C8_mask_email_idempotent:
  assumes "length S \<le> string_max_size"
    and "p < length S" and "S ! p = CHR ''@''" and "0 < p"
  shows "\<exists>r. MaskEmailLambda S = Inr r \<and> MaskEmailLambda r = Inr r"
  using assms(1) by (rule MaskEmailLambda_idem)

theorem C8_mask_email_idempotent_witness:
  "\<exists>r. MaskEmailLambda ''ab@c'' = Inr r \<and> MaskEmailLambda r = Inr r"
  using C8_mask_email_idempotent [of "''ab@c''" 2]
  by (simp add: string_max_size_def)

subsection \<open>C9\<close>

text \<open>
  Claim C9: for every fixed input string \<open>S\<close>, start \<open>s\<close> and fill byte \<open>c\<close>, and for
  all lengths \<open>n1 \<le> n2\<close>, the output for \<open>n1\<close> has at most as many bytes \<open>c\<close> as the
  output for \<open>n2\<close>.

  The code does not do this at \<open>S = abc\<close>, \<open>s = 2\<close>, \<open>c = *\<close>, \<open>n1 = 1\<close> and
  \<open>n2 = 2 ^ 63 - 1\<close>: by the overflow of \<^verbatim>\<open>start + length\<close> at line 76, the one that
  claim C1 meets, the larger length masks nothing.  The theorem evaluates the lambda
  at both lengths and counts the fill bytes.
\<close>

theorem C9_overflow_at_failing_input:
  "sint (1 :: int64) \<le> sint (9223372036854775807 :: int64)
   \<and> fst (MaskStringLambda (CHR 0x00) ''*'' ''abc'' 2 1) = Inr ''a*c''
   \<and> fst (MaskStringLambda (CHR 0x00) ''*'' ''abc'' 2 9223372036854775807) = Inr ''abc''
   \<and> count_list ''a*c'' CHR ''*'' = 1
   \<and> count_list ''abc'' CHR ''*'' = 0"
  by (simp add: MaskStringLambda_def bind_result_def GetData_at_def substr_def
        substr_from_def string_fill_def string_max_size_def min_i64_def max_i64_def)

end
